theory Spec2Isabelle
  imports Complex_Main "HOL-Library.Product_Lexorder"
begin

section \<open>Data model\<close>

text \<open>
  The program (\<^verbatim>\<open>program_11.py\<close>) works on pandas tables indexed by calendar date.
  A date is the triple (year, month, day); the order on dates is the lexicographic
  order of the triple, which is the chronological one. The daily files carry no time of
  day, so a \<^verbatim>\<open>Timestamp\<close> of the index is a date at midnight.
\<close>

type_synonym date = "int \<times> nat \<times> nat"

definition year_of :: "date \<Rightarrow> int" where
  "year_of d = fst d"

definition month_of :: "date \<Rightarrow> nat" where
  "month_of d = fst (snd d)"

definition day_of :: "date \<Rightarrow> nat" where
  "day_of d = snd (snd d)"

definition valid_date :: "date \<Rightarrow> bool" where
  "valid_date d = (1 \<le> month_of d \<and> month_of d \<le> 12 \<and> 1 \<le> day_of d \<and> day_of d \<le> 31)"

text \<open>
  One row of the discharge table, with the column names of \<^verbatim>\<open>colNames\<close>. The type
  of the discharge column is a parameter: it is a raw cell in the file and a float that
  may be absent (\<^verbatim>\<open>NaN\<close>, here \<open>None\<close>) in the table. Floats are modelled as reals.
\<close>

record 'd row =
  agency_cd :: string
  site_no :: string
  Date :: date
  Discharge :: 'd
  Quality :: string

text \<open>
  A cell of the discharge column as \<^verbatim>\<open>read_csv\<close> meets it: text that reads as a number,
  or any other text (the empty field included).
\<close>

datatype cell = Num real | Txt string

datatype error = TypeError | ValueError

section \<open>ReadData\<close>

text \<open>
  \<^verbatim>\<open>na_values=['Eqp']\<close>: the tokens the call adds to the ones pandas takes for missing
  by itself. The latter list belongs to pandas and is a parameter \<open>dflt\<close> of the model.
\<close>

definition na_values :: "string list" where
  "na_values = [''Eqp'']"

definition is_na_token :: "string list \<Rightarrow> string \<Rightarrow> bool" where
  "is_na_token dflt s = (s \<in> set (dflt @ na_values))"

text \<open>
  What \<^verbatim>\<open>read_csv\<close> makes of one cell of a numeric column: the number, \<^verbatim>\<open>NaN\<close> for a
  missing-value token, and no float at all (outer \<open>None\<close>) for other text. One such cell
  leaves the whole column with dtype \<^verbatim>\<open>object\<close>.
\<close>

definition read_cell :: "string list \<Rightarrow> cell \<Rightarrow> real option option" where
  "read_cell dflt c =
     (case c of
        Num v \<Rightarrow> Some (Some v)
      | Txt s \<Rightarrow> if is_na_token dflt s then Some None else None)"

definition numeric_column :: "string list \<Rightarrow> cell row list \<Rightarrow> bool" where
  "numeric_column dflt rows = list_all (\<lambda>r. read_cell dflt (Discharge r) \<noteq> None) rows"

definition parse_row :: "string list \<Rightarrow> cell row \<Rightarrow> real option row" where
  "parse_row dflt r =
     \<lparr> agency_cd = agency_cd r, site_no = site_no r, Date = Date r,
       Discharge = (case read_cell dflt (Discharge r) of Some v \<Rightarrow> v | None \<Rightarrow> None),
       Quality = Quality r \<rparr>"

text \<open>\<^verbatim>\<open>DataDF['Discharge'] < 0\<close>: a comparison with \<^verbatim>\<open>NaN\<close> is false.\<close>

definition lt0 :: "real option \<Rightarrow> bool" where
  "lt0 x = (case x of None \<Rightarrow> False | Some v \<Rightarrow> v < 0)"

text \<open>
  \<^verbatim>\<open>DataDF['Discharge'].mask(DataDF['Discharge'] < 0, np.nan, inplace=True)\<close>, with the
  in-place update reaching the table, as it does in the pandas the program was written
  for (no copy-on-write).
\<close>

definition mask_negative :: "real option row list \<Rightarrow> real option row list" where
  "mask_negative t = map (\<lambda>r. r\<lparr>Discharge := (if lt0 (Discharge r) then None else Discharge r)\<rparr>) t"

definition isna :: "real option \<Rightarrow> bool" where
  "isna x = (x = None)"

text \<open>\<^verbatim>\<open>DataDF["Discharge"].isna().sum()\<close>: the booleans are summed as 0 and 1.\<close>

definition count_na :: "real option row list \<Rightarrow> nat" where
  "count_na t = sum_list (map (\<lambda>r. if isna (Discharge r) then 1 else 0) t)"

text \<open>
  \<open>ReadData\<close> on the data rows of the file (after the comment lines and the header lines
  that \<^verbatim>\<open>read_csv\<close> skips). A column of dtype \<^verbatim>\<open>object\<close> makes the comparison with 0
  raise \<^verbatim>\<open>TypeError\<close>, which the function does not catch.
\<close>

definition ReadData :: "string list \<Rightarrow> cell row list \<Rightarrow> error + (real option row list \<times> nat)" where
  "ReadData dflt rows =
     (if \<not> numeric_column dflt rows then Inl TypeError
      else
        let DataDF = map (parse_row dflt) rows;
            DataDF = mask_negative DataDF;
            MissingValues = count_na DataDF
        in Inr (DataDF, MissingValues))"

text \<open>The raw cells that end up absent: the negative numbers and the missing-value tokens.\<close>

definition negative_cell :: "cell \<Rightarrow> bool" where
  "negative_cell c = (case c of Num v \<Rightarrow> v < 0 | Txt s \<Rightarrow> False)"

definition na_cell :: "string list \<Rightarrow> cell \<Rightarrow> bool" where
  "na_cell dflt c = (case c of Num v \<Rightarrow> False | Txt s \<Rightarrow> is_na_token dflt s)"

section \<open>ClipData\<close>

text \<open>
  \<^verbatim>\<open>DataDF[startDate:endDate]\<close> on an index in ascending order: pandas finds the two ends
  of the slice by \<^verbatim>\<open>searchsorted\<close>, the left end before the first date that is not
  below the start, the right end after the last date that is not above the end, and takes
  the rows between the two positions (none when the right end is not beyond the left).
\<close>

definition searchsorted_left :: "date list \<Rightarrow> date \<Rightarrow> nat" where
  "searchsorted_left ds x = length (takeWhile (\<lambda>d. d < x) ds)"

definition searchsorted_right :: "date list \<Rightarrow> date \<Rightarrow> nat" where
  "searchsorted_right ds x = length (takeWhile (\<lambda>d. d \<le> x) ds)"

definition slice_rows :: "'a list \<Rightarrow> nat \<Rightarrow> nat \<Rightarrow> 'a list" where
  "slice_rows xs lo hi = take (hi - lo) (drop lo xs)"

definition ClipData :: "real option row list \<Rightarrow> date \<Rightarrow> date \<Rightarrow> real option row list \<times> nat" where
  "ClipData DataDF startDate endDate =
     (let idx = map Date DataDF;
          DataDF = slice_rows DataDF (searchsorted_left idx startDate) (searchsorted_right idx endDate);
          MissingValues = count_na DataDF
      in (DataDF, MissingValues))"

text \<open>The tables of the data model: the index is in ascending order.\<close>

definition ascending :: "'d row list \<Rightarrow> bool" where
  "ascending t = sorted (map Date t)"

definition in_window :: "date \<Rightarrow> date \<Rightarrow> 'd row \<Rightarrow> bool" where
  "in_window s e r = (s \<le> Date r \<and> Date r \<le> e)"

definition absent_rows :: "real option row list \<Rightarrow> real option row list" where
  "absent_rows t = filter (\<lambda>r. Discharge r = None) t"

section \<open>ReadMetrics\<close>

text \<open>
  The frame that \<^verbatim>\<open>read_csv\<close> delivers for a metrics file, as its columns in file order,
  each under its header name, with cells of any type. \<^verbatim>\<open>parse_dates=['Date']\<close> asks
  for a column of that name and raises \<^verbatim>\<open>ValueError\<close> without one;
  \<^verbatim>\<open>set_index('Date')\<close> makes that column the index and keeps the others as they are.
\<close>

definition ReadMetrics :: "(string \<times> 'c list) list \<Rightarrow> error + ('c list \<times> (string \<times> 'c list) list)" where
  "ReadMetrics metricsDF =
     (case map_of metricsDF ''Date'' of
        None \<Rightarrow> Inl ValueError
      | Some dates \<Rightarrow> Inr (dates, filter (\<lambda>(name, col). name \<noteq> ''Date'') metricsDF))"

section \<open>GetMonthlyStatistics\<close>

text \<open>
  \<^verbatim>\<open>resample('MS')\<close> cuts the time axis into calendar months. A month is numbered by
  the months elapsed since the year 0, which orders the buckets in time; the bucket's
  label is the first day of its month, whose \<^verbatim>\<open>.month\<close> is \<open>bucket_month\<close>.
\<close>

definition month_index :: "date \<Rightarrow> int" where
  "month_index d = year_of d * 12 + int (month_of d) - 1"

definition bucket_month :: "int \<Rightarrow> nat" where
  "bucket_month b = nat (b mod 12) + 1"

text \<open>The values of a column that are not \<^verbatim>\<open>NaN\<close>.\<close>

fun present :: "real option list \<Rightarrow> real list" where
  "present [] = []"
| "present (None # xs) = present xs"
| "present (Some v # xs) = v # present xs"

text \<open>
  \<^verbatim>\<open>mean()\<close> of pandas skips \<^verbatim>\<open>NaN\<close>, and is \<^verbatim>\<open>NaN\<close> when nothing is left.
\<close>

definition nanmean :: "real option list \<Rightarrow> real option" where
  "nanmean xs =
     (let vs = present xs
      in if vs = [] then None else Some (sum_list vs / real (length vs)))"

text \<open>
  The resampler makes one bucket for every month from the month of the earliest date to
  the month of the latest one, with or without rows in it, and puts each row into the
  bucket of its month. An empty table has no bucket.
\<close>

definition bucket_values :: "real option row list \<Rightarrow> int \<Rightarrow> real option list" where
  "bucket_values DataDF b = map Discharge (filter (\<lambda>r. month_index (Date r) = b) DataDF)"

definition resample_MS :: "real option row list \<Rightarrow> (int \<times> real option list) list" where
  "resample_MS DataDF =
     (case map (\<lambda>r. month_index (Date r)) DataDF of
        [] \<Rightarrow> []
      | k # ks \<Rightarrow> map (\<lambda>b. (b, bucket_values DataDF b)) [fold min ks k .. fold max ks k])"

text \<open>\<^verbatim>\<open>monthlyData['Discharge'].mean()\<close>: the mean of each bucket, under its label.\<close>

definition bucket_means :: "(int \<times> real option list) list \<Rightarrow> (int \<times> real option) list" where
  "bucket_means monthlyData = map (\<lambda>(b, vs). (b, nanmean vs)) monthlyData"

text \<open>
  \<open>GetMonthlyStatistics\<close>: the mean of each bucket, then \<^verbatim>\<open>groupby(index.month).mean()\<close>,
  whose groups are the month numbers of the bucket labels in ascending order. The result
  is the list of the rows (month number, discharge).
\<close>

definition GetMonthlyStatistics :: "real option row list \<Rightarrow> (nat \<times> real option) list" where
  "GetMonthlyStatistics DataDF =
     (let monthlyData = resample_MS DataDF;
          MoDataDF = bucket_means monthlyData;
          months = sort (remdups (map (\<lambda>(b, v). bucket_month b) MoDataDF))
      in map (\<lambda>m. (m, nanmean (map snd (filter (\<lambda>(b, v). bucket_month b = m) MoDataDF)))) months)"

text \<open>
  The aggregation in the words of the specification, for comparison: the rows are grouped
  by calendar month of a year and averaged, absent values ignored; the means of the groups
  with the same month number are then averaged over the years.
\<close>

definition spec_bucket_mean :: "real option row list \<Rightarrow> int \<Rightarrow> nat \<Rightarrow> real option" where
  "spec_bucket_mean t y m =
     nanmean (map Discharge (filter (\<lambda>r. year_of (Date r) = y \<and> month_of (Date r) = m) t))"

definition spec_years :: "real option row list \<Rightarrow> nat \<Rightarrow> int list" where
  "spec_years t m = sort (remdups (map (\<lambda>r. year_of (Date r)) (filter (\<lambda>r. month_of (Date r) = m) t)))"

definition spec_monthly_profile :: "real option row list \<Rightarrow> nat \<Rightarrow> real option" where
  "spec_monthly_profile t m = nanmean (map (\<lambda>y. spec_bucket_mean t y m) (spec_years t m))"

definition valid_dates :: "'d row list \<Rightarrow> bool" where
  "valid_dates t = list_all (\<lambda>r. valid_date (Date r)) t"

text \<open>The months of the first and of the last bucket of a table that has rows.\<close>

definition first_month :: "'d row list \<Rightarrow> int" where
  "first_month t = Min (set (map (\<lambda>r. month_index (Date r)) t))"

definition last_month :: "'d row list \<Rightarrow> int" where
  "last_month t = Max (set (map (\<lambda>r. month_index (Date r)) t))"

section \<open>The exceedance probabilities of figure 6\<close>

text \<open>
  \<^verbatim>\<open>sort_values(ascending=False)\<close> on the peak flows of a station (none of them absent),
  and \<^verbatim>\<open>stats.rankdata(.., method='average')\<close>: the rank of a value counts the values
  below it, and equal values share the mean of the ranks they cover.
\<close>

definition sort_values_desc :: "real list \<Rightarrow> real list" where
  "sort_values_desc xs = rev (sort xs)"

definition rankdata_average :: "real list \<Rightarrow> real list" where
  "rankdata_average xs =
     map (\<lambda>x. real (length (filter (\<lambda>y. y < x) xs))
               + (real (length (filter (\<lambda>y. y = x) xs)) + 1) / 2) xs"

text \<open>
  The points of \<^verbatim>\<open>plt.scatter(tippe_exc, tippe_peak)\<close>: the i-th exceedance value beside
  the i-th peak of the descending series.
\<close>

definition exceedance :: "real list \<Rightarrow> (real \<times> real) list" where
  "exceedance annual_peak =
     (let peak = sort_values_desc annual_peak;
          rank = rankdata_average peak;
          rank_rev = rev rank;
          exc = map (\<lambda>i. rank_rev ! i / (real (length peak) + 1)) [0..<length peak]
      in zip exc peak)"

section \<open>Sample tables\<close>

definition raw_row :: "date \<Rightarrow> cell \<Rightarrow> cell row" where
  "raw_row d c = \<lparr> agency_cd = ''USGS'', site_no = ''03335000'', Date = d, Discharge = c, Quality = ''A'' \<rparr>"

definition flow_row :: "date \<Rightarrow> real option \<Rightarrow> real option row" where
  "flow_row d v = \<lparr> agency_cd = ''USGS'', site_no = ''03335000'', Date = d, Discharge = v, Quality = ''A'' \<rparr>"

definition raw_sample :: "cell row list" where
  "raw_sample =
     [raw_row (2014, 9, 30) (Num 5), raw_row (2014, 10, 1) (Num (-3)),
      raw_row (2014, 10, 2) (Txt ''Eqp''), raw_row (2014, 10, 3) (Num 0)]"

definition flow_sample :: "real option row list" where
  "flow_sample =
     [flow_row (2014, 9, 30) (Some 5), flow_row (2014, 10, 1) None,
      flow_row (2014, 10, 2) None, flow_row (2019, 9, 29) (Some 8),
      flow_row (2019, 10, 1) (Some 2)]"

definition january_sample :: "real option row list" where
  "january_sample =
     [flow_row (2018, 1, 1) (Some 5), flow_row (2018, 1, 2) (Some 15),
      flow_row (2018, 1, 3) None, flow_row (2019, 1, 1) (Some 30)]"

definition gap_sample :: "real option row list" where
  "gap_sample = [flow_row (2020, 1, 15) (Some 4), flow_row (2020, 3, 15) (Some 6)]"

section \<open>Counting the missing values\<close>

lemma count_na_filter: "count_na t = length (absent_rows t)"
  by (induction t) (simp_all add: count_na_def absent_rows_def isna_def)

lemma length_filter_imp:
  "(\<And>x. P x \<Longrightarrow> Q x) \<Longrightarrow> length (filter P xs) \<le> length (filter Q xs)"
  by (induction xs) auto

section \<open>Properties of ReadData\<close>

lemma ReadData_numeric:
  "numeric_column dflt rows \<Longrightarrow>
     ReadData dflt rows =
       Inr (mask_negative (map (parse_row dflt) rows), count_na (mask_negative (map (parse_row dflt) rows)))"
  by (simp add: ReadData_def Let_def)

lemma ReadData_not_numeric: "\<not> numeric_column dflt rows \<Longrightarrow> ReadData dflt rows = Inl TypeError"
  by (simp add: ReadData_def)

lemma length_masked: "length (mask_negative (map (parse_row dflt) rows)) = length rows"
  by (simp add: mask_negative_def)

lemma Date_masked:
  "i < length rows \<Longrightarrow> Date (mask_negative (map (parse_row dflt) rows) ! i) = Date (rows ! i)"
  by (simp add: mask_negative_def parse_row_def)

lemma Discharge_masked:
  "i < length rows \<Longrightarrow>
     Discharge (mask_negative (map (parse_row dflt) rows) ! i) =
       (case Discharge (rows ! i) of
          Num v \<Rightarrow> if v < 0 then None else Some v
        | Txt s \<Rightarrow> None)"
  by (simp add: mask_negative_def parse_row_def read_cell_def lt0_def split: cell.splits)

lemma masked_Cons:
  "mask_negative (parse_row dflt r # t) =
     \<lparr> agency_cd = agency_cd r, site_no = site_no r, Date = Date r,
       Discharge = (case Discharge r of Num v \<Rightarrow> if v < 0 then None else Some v | Txt s \<Rightarrow> None),
       Quality = Quality r \<rparr> # mask_negative t"
  by (simp add: mask_negative_def parse_row_def read_cell_def lt0_def split: cell.splits)

lemma absent_rows_Cons:
  "absent_rows (r # t) = (if Discharge r = None then r # absent_rows t else absent_rows t)"
  by (simp add: absent_rows_def)

lemma numeric_column_Cons:
  "numeric_column dflt (r # rows) \<longleftrightarrow>
     (case Discharge r of Num v \<Rightarrow> True | Txt s \<Rightarrow> is_na_token dflt s) \<and> numeric_column dflt rows"
  by (simp add: numeric_column_def read_cell_def split: cell.splits)

lemma absent_masked:
  "numeric_column dflt rows \<Longrightarrow>
     length (absent_rows (mask_negative (map (parse_row dflt) rows))) =
       length (filter (\<lambda>r. negative_cell (Discharge r)) rows)
       + length (filter (\<lambda>r. na_cell dflt (Discharge r)) rows)"
proof (induction rows)
  case Nil
  show ?case by (simp add: absent_rows_def mask_negative_def)
next
  case (Cons r rows)
  from Cons.prems have tl: "numeric_column dflt rows"
    and hd: "case Discharge r of Num v \<Rightarrow> True | Txt s \<Rightarrow> is_na_token dflt s"
    by (simp_all add: numeric_column_Cons)
  note IH = Cons.IH [OF tl]
  show ?case
  proof (cases "Discharge r")
    case (Num v)
    then show ?thesis
      by (simp add: masked_Cons absent_rows_Cons IH negative_cell_def na_cell_def)
  next
    case (Txt s)
    with hd have "is_na_token dflt s" by simp
    with Txt show ?thesis
      by (simp add: masked_Cons absent_rows_Cons IH negative_cell_def na_cell_def)
  qed
qed

lemma raw_sample_numeric: "numeric_column [''''] raw_sample"
  by (simp add: numeric_column_def raw_sample_def raw_row_def read_cell_def is_na_token_def na_values_def)

text \<open>
  Claim C1. When the discharge column of the file reads as numbers and missing-value
  tokens, \<open>ReadData\<close> returns a table with one row per data row of the file, in the same
  order and with the same dates, in which a raw discharge \<open>v < 0\<close> is absent and a raw
  discharge \<open>v \<ge> 0\<close> is \<open>v\<close> itself. The count it returns is taken after that step: it
  is the number of absent entries of the returned table, which is the number of negative
  raw values plus the number of missing-value tokens.
\<close>

theorem ReadData_masks_negative:
  assumes "numeric_column dflt rows"
  shows "\<exists>t n. ReadData dflt rows = Inr (t, n) \<and> length t = length rows
     \<and> (\<forall>i<length rows. Date (t ! i) = Date (rows ! i)
          \<and> (\<forall>v. Discharge (rows ! i) = Num v \<longrightarrow>
                Discharge (t ! i) = (if v < 0 then None else Some v)))
     \<and> n = length (absent_rows t)
     \<and> n = length (filter (\<lambda>r. negative_cell (Discharge r)) rows)
           + length (filter (\<lambda>r. na_cell dflt (Discharge r)) rows)"
proof -
  let ?t = "mask_negative (map (parse_row dflt) rows)"
  have "ReadData dflt rows = Inr (?t, count_na ?t)"
    using assms by (rule ReadData_numeric)
  moreover have "length ?t = length rows" by (rule length_masked)
  moreover have "\<forall>i<length rows. Date (?t ! i) = Date (rows ! i)
          \<and> (\<forall>v. Discharge (rows ! i) = Num v \<longrightarrow>
                Discharge (?t ! i) = (if v < 0 then None else Some v))"
    by (simp add: Date_masked Discharge_masked)
  moreover have "count_na ?t = length (absent_rows ?t)" by (rule count_na_filter)
  moreover have "count_na ?t = length (filter (\<lambda>r. negative_cell (Discharge r)) rows)
           + length (filter (\<lambda>r. na_cell dflt (Discharge r)) rows)"
    using assms by (simp add: count_na_filter absent_masked)
  ultimately show ?thesis by blast
qed

theorem ReadData_masks_negative_witness:
  "numeric_column [''''] raw_sample
   \<and> (\<exists>t. ReadData [''''] raw_sample = Inr (t, 2) \<and> length t = 4
        \<and> Discharge (t ! 0) = Some 5 \<and> Discharge (t ! 1) = None \<and> Discharge (t ! 3) = Some 0)"
proof -
  have h: "numeric_column [''''] raw_sample" by (rule raw_sample_numeric)
  from ReadData_masks_negative [OF h] obtain t n where
    R: "ReadData [''''] raw_sample = Inr (t, n)" and L: "length t = length raw_sample"
    and D: "\<forall>i<length raw_sample. Date (t ! i) = Date (raw_sample ! i)
          \<and> (\<forall>v. Discharge (raw_sample ! i) = Num v \<longrightarrow>
                Discharge (t ! i) = (if v < 0 then None else Some v))"
    and N: "n = length (filter (\<lambda>r. negative_cell (Discharge r)) raw_sample)
           + length (filter (\<lambda>r. na_cell [''''] (Discharge r)) raw_sample)"
    by blast
  have n: "n = 2"
    unfolding N by (simp add: raw_sample_def raw_row_def negative_cell_def na_cell_def is_na_token_def na_values_def)
  have len: "length raw_sample = 4" by (simp add: raw_sample_def)
  have d0: "Discharge (raw_sample ! 0) = Num 5" and d1: "Discharge (raw_sample ! 1) = Num (-3)"
    and d3: "Discharge (raw_sample ! 3) = Num 0"
    by (simp_all add: raw_sample_def raw_row_def)
  from D len d0 have "Discharge (t ! 0) = Some 5" by force
  moreover from D len d1 have "Discharge (t ! 1) = None" by force
  moreover from D len d3 have "Discharge (t ! 3) = Some 0" by force
  ultimately show ?thesis using h R L n len by auto
qed

text \<open>
  Claim C3. The count returned by \<open>ReadData\<close> is the number of absent discharge entries
  of the table it returns, and the count returned by \<open>ClipData\<close> is the number of absent
  discharge entries of the clipped table it returns, for every table and every pair of
  dates: \<open>ClipData\<close> takes no earlier count and counts the clipped rows anew.
\<close>

theorem missing_count_is_recount:
  "(numeric_column dflt rows \<longrightarrow>
      (\<exists>t n. ReadData dflt rows = Inr (t, n) \<and> n = length (absent_rows t)
          \<and> n = card {i. i < length t \<and> Discharge (t ! i) = None}))
   \<and> snd (ClipData DataDF s e) = length (absent_rows (fst (ClipData DataDF s e)))
   \<and> snd (ClipData DataDF s e) =
       card {i. i < length (fst (ClipData DataDF s e)) \<and> Discharge (fst (ClipData DataDF s e) ! i) = None}"
proof -
  have card: "length (absent_rows t) = card {i. i < length t \<and> Discharge (t ! i) = None}" for t
    by (simp add: absent_rows_def length_filter_conv_card)
  have "ReadData dflt rows = Inr (mask_negative (map (parse_row dflt) rows),
          count_na (mask_negative (map (parse_row dflt) rows)))" if "numeric_column dflt rows"
    using that by (rule ReadData_numeric)
  then have "numeric_column dflt rows \<longrightarrow>
      (\<exists>t n. ReadData dflt rows = Inr (t, n) \<and> n = length (absent_rows t)
          \<and> n = card {i. i < length t \<and> Discharge (t ! i) = None})"
    using card by (auto simp: count_na_filter)
  moreover have "snd (ClipData DataDF s e) = length (absent_rows (fst (ClipData DataDF s e)))"
    by (simp add: ClipData_def Let_def count_na_filter)
  ultimately show ?thesis using card by metis
qed

theorem missing_count_is_recount_witness:
  "numeric_column [''''] raw_sample
   \<and> (\<exists>t n. ReadData [''''] raw_sample = Inr (t, n) \<and> n = length (absent_rows t)
          \<and> n = card {i. i < length t \<and> Discharge (t ! i) = None})
   \<and> snd (ClipData flow_sample (2014, 10, 1) (2019, 9, 30)) =
       length (absent_rows (fst (ClipData flow_sample (2014, 10, 1) (2019, 9, 30))))
   \<and> length (absent_rows (fst (ClipData flow_sample (2014, 10, 1) (2019, 9, 30)))) = 2"
proof -
  have h: "numeric_column [''''] raw_sample" by (rule raw_sample_numeric)
  have two: "length (absent_rows (fst (ClipData flow_sample (2014, 10, 1) (2019, 9, 30)))) = 2"
    by (simp add: ClipData_def Let_def flow_sample_def flow_row_def searchsorted_left_def
        searchsorted_right_def slice_rows_def absent_rows_def)
  from missing_count_is_recount [of "['''']" raw_sample flow_sample "(2014, 10, 1)" "(2019, 9, 30)"] h two
  show ?thesis by blast
qed

text \<open>
  Claim C9. The token \<^verbatim>\<open>Eqp\<close> is a missing-value token whatever the tokens pandas
  knows by itself, and those stay missing-value tokens. A column of numbers, \<^verbatim>\<open>Eqp\<close>
  and such tokens is read without error; every \<^verbatim>\<open>Eqp\<close> entry is absent in the returned
  table, and the returned count, being the number of absent entries of that table, covers
  all of them.
\<close>

theorem Eqp_is_missing_value:
  "read_cell dflt (Txt ''Eqp'') = Some None
   \<and> (s \<in> set dflt \<longrightarrow> read_cell dflt (Txt s) = Some None)
   \<and> (numeric_column dflt rows \<longrightarrow>
        (\<exists>t n. ReadData dflt rows = Inr (t, n) \<and> length t = length rows
           \<and> (\<forall>i<length rows. Discharge (rows ! i) = Txt ''Eqp'' \<longrightarrow> Discharge (t ! i) = None)
           \<and> n = length (absent_rows t)
           \<and> length (filter (\<lambda>r. Discharge r = Txt ''Eqp'') rows) \<le> n))"
proof -
  have eqp: "is_na_token dflt ''Eqp''"
    by (simp add: is_na_token_def na_values_def)
  have std: "s \<in> set dflt \<longrightarrow> read_cell dflt (Txt s) = Some None"
    by (simp add: read_cell_def is_na_token_def)
  have main: "\<exists>t n. ReadData dflt rows = Inr (t, n) \<and> length t = length rows
           \<and> (\<forall>i<length rows. Discharge (rows ! i) = Txt ''Eqp'' \<longrightarrow> Discharge (t ! i) = None)
           \<and> n = length (absent_rows t)
           \<and> length (filter (\<lambda>r. Discharge r = Txt ''Eqp'') rows) \<le> n"
    if num: "numeric_column dflt rows"
  proof -
    let ?t = "mask_negative (map (parse_row dflt) rows)"
    have R: "ReadData dflt rows = Inr (?t, count_na ?t)"
      using num by (rule ReadData_numeric)
    have A: "\<forall>i<length rows. Discharge (rows ! i) = Txt ''Eqp'' \<longrightarrow> Discharge (?t ! i) = None"
      by (simp add: Discharge_masked)
    have "length (filter (\<lambda>r. Discharge r = Txt ''Eqp'') rows)
            \<le> length (filter (\<lambda>r. na_cell dflt (Discharge r)) rows)"
      using eqp by (intro length_filter_imp) (auto simp: na_cell_def)
    then have C: "length (filter (\<lambda>r. Discharge r = Txt ''Eqp'') rows) \<le> count_na ?t"
      using num by (simp add: count_na_filter absent_masked)
    from R A C show ?thesis
      using length_masked [of dflt rows] count_na_filter [of ?t] by blast
  qed
  from eqp std main show ?thesis by (simp add: read_cell_def)
qed

theorem Eqp_is_missing_value_witness:
  "read_cell [''''] (Txt ''Eqp'') = Some None
   \<and> read_cell [''''] (Txt '''') = Some None
   \<and> numeric_column [''''] raw_sample
   \<and> Discharge (raw_sample ! 2) = Txt ''Eqp''
   \<and> (\<exists>t n. ReadData [''''] raw_sample = Inr (t, n) \<and> Discharge (t ! 2) = None \<and> 1 \<le> n)"
proof -
  have h: "numeric_column [''''] raw_sample" by (rule raw_sample_numeric)
  have len: "length raw_sample = 4" and d2: "Discharge (raw_sample ! 2) = Txt ''Eqp''"
    by (simp_all add: raw_sample_def raw_row_def)
  have one: "length (filter (\<lambda>r. Discharge r = Txt ''Eqp'') raw_sample) = 1"
    by (simp add: raw_sample_def raw_row_def)
  have mem: "'''' \<in> set ['''']" by simp
  from Eqp_is_missing_value [of "['''']" "''''" raw_sample] h mem
  obtain t n where c1: "read_cell [''''] (Txt ''Eqp'') = Some None"
    and c2: "read_cell [''''] (Txt '''') = Some None"
    and R: "ReadData [''''] raw_sample = Inr (t, n)"
    and A: "\<forall>i<length raw_sample. Discharge (raw_sample ! i) = Txt ''Eqp'' \<longrightarrow> Discharge (t ! i) = None"
    and C: "length (filter (\<lambda>r. Discharge r = Txt ''Eqp'') raw_sample) \<le> n"
    by blast
  from A len d2 have "Discharge (t ! 2) = None" by simp
  with c1 c2 h d2 R C one show ?thesis by auto
qed

section \<open>Properties of ClipData\<close>

lemma takeWhile_below_sorted:
  "sorted (map f xs) \<Longrightarrow> takeWhile (\<lambda>x. f x < (s::'k::linorder)) xs = filter (\<lambda>x. f x < s) xs"
proof (induction xs)
  case Nil
  show ?case by simp
next
  case (Cons x xs)
  show ?case
  proof (cases "f x < s")
    case True
    with Cons show ?thesis by simp
  next
    case False
    from Cons.prems have "\<forall>y\<in>set xs. f x \<le> f y" by simp
    with False have "\<forall>y\<in>set xs. \<not> f y < s" by auto
    then have "filter (\<lambda>x. f x < s) xs = []" by (simp add: filter_empty_conv)
    with False show ?thesis by simp
  qed
qed

lemma takeWhile_upto_sorted:
  "sorted (map f xs) \<Longrightarrow> takeWhile (\<lambda>x. f x \<le> (e::'k::linorder)) xs = filter (\<lambda>x. f x \<le> e) xs"
proof (induction xs)
  case Nil
  show ?case by simp
next
  case (Cons x xs)
  show ?case
  proof (cases "f x \<le> e")
    case True
    with Cons show ?thesis by simp
  next
    case False
    from Cons.prems have "\<forall>y\<in>set xs. f x \<le> f y" by simp
    with False have "\<forall>y\<in>set xs. \<not> f y \<le> e" by auto
    then have "filter (\<lambda>x. f x \<le> e) xs = []" by (simp add: filter_empty_conv)
    with False show ?thesis by simp
  qed
qed

lemma dropWhile_below_sorted:
  "sorted (map f xs) \<Longrightarrow> dropWhile (\<lambda>x. f x < (s::'k::linorder)) xs = filter (\<lambda>x. s \<le> f x) xs"
proof (induction xs)
  case Nil
  show ?case by simp
next
  case (Cons x xs)
  show ?case
  proof (cases "f x < s")
    case True
    with Cons show ?thesis by simp
  next
    case False
    from Cons.prems have "\<forall>y\<in>set xs. f x \<le> f y" by simp
    with False have "\<forall>y\<in>set xs. s \<le> f y" by auto
    then have "filter (\<lambda>x. s \<le> f x) xs = xs" by (simp add: filter_id_conv)
    with False show ?thesis by simp
  qed
qed

lemma sorted_map_filter: "sorted (map f xs) \<Longrightarrow> sorted (map f (filter P xs))"
  by (induction xs) auto

lemma length_takeWhile_map: "length (takeWhile P (map f xs)) = length (takeWhile (\<lambda>x. P (f x)) xs)"
  by (induction xs) auto

lemma drop_length_takeWhile: "drop (length (takeWhile P xs)) xs = dropWhile P xs"
  by (induction xs) auto

lemma take_length_takeWhile: "take (length (takeWhile P xs)) xs = takeWhile P xs"
  by (induction xs) auto

lemma length_filter_split:
  "length (filter (\<lambda>x. f x \<le> (e::'k::linorder)) xs) - length (filter (\<lambda>x. f x < s) xs)
     = length (filter (\<lambda>x. s \<le> f x \<and> f x \<le> e) xs)"
  if "s \<le> e"
proof -
  have "length (filter (\<lambda>x. f x \<le> e) xs)
      = length (filter (\<lambda>x. f x < s) xs) + length (filter (\<lambda>x. s \<le> f x \<and> f x \<le> e) xs)"
    using that by (induction xs) auto
  then show ?thesis by simp
qed

lemma slice_is_window:
  assumes "sorted (map f xs)"
  shows "slice_rows xs (length (takeWhile (\<lambda>x. f x < (s::'k::linorder)) xs))
            (length (takeWhile (\<lambda>x. f x \<le> e) xs))
         = filter (\<lambda>x. s \<le> f x \<and> f x \<le> e) xs"
proof -
  let ?lo = "length (takeWhile (\<lambda>x. f x < s) xs)"
  let ?hi = "length (takeWhile (\<lambda>x. f x \<le> e) xs)"
  let ?ys = "filter (\<lambda>x. s \<le> f x) xs"
  have lo: "?lo = length (filter (\<lambda>x. f x < s) xs)"
    using assms by (simp add: takeWhile_below_sorted)
  have hi: "?hi = length (filter (\<lambda>x. f x \<le> e) xs)"
    using assms by (simp add: takeWhile_upto_sorted)
  have dr: "drop ?lo xs = ?ys"
    using assms by (simp add: drop_length_takeWhile dropWhile_below_sorted)
  show ?thesis
  proof (cases "s \<le> e")
    case True
    have ys: "sorted (map f ?ys)" using assms by (rule sorted_map_filter)
    have "?hi - ?lo = length (filter (\<lambda>x. s \<le> f x \<and> f x \<le> e) xs)"
      using True by (simp only: lo hi length_filter_split)
    also have "\<dots> = length (filter (\<lambda>x. f x \<le> e) ?ys)"
      by (simp add: conj_commute)
    also have "\<dots> = length (takeWhile (\<lambda>x. f x \<le> e) ?ys)"
      using ys by (simp add: takeWhile_upto_sorted)
    finally have "take (?hi - ?lo) ?ys = takeWhile (\<lambda>x. f x \<le> e) ?ys"
      by (simp only: take_length_takeWhile)
    also have "\<dots> = filter (\<lambda>x. f x \<le> e) ?ys"
      using ys by (rule takeWhile_upto_sorted)
    also have "\<dots> = filter (\<lambda>x. s \<le> f x \<and> f x \<le> e) xs"
      by (simp add: conj_commute)
    finally show ?thesis by (simp add: slice_rows_def dr)
  next
    case False
    then have "filter (\<lambda>x. s \<le> f x \<and> f x \<le> e) xs = []"
      by (auto simp: filter_empty_conv)
    moreover have "?hi \<le> ?lo"
      unfolding lo hi using False by (intro length_filter_imp) auto
    ultimately show ?thesis by (simp add: slice_rows_def)
  qed
qed

lemma ClipData_filter:
  "ascending t \<Longrightarrow> ClipData t s e = (filter (in_window s e) t, count_na (filter (in_window s e) t))"
proof -
  assume "ascending t"
  then have "sorted (map Date t)" by (simp add: ascending_def)
  from slice_is_window [OF this, of s e]
  have "slice_rows t (searchsorted_left (map Date t) s) (searchsorted_right (map Date t) e)
          = filter (in_window s e) t"
    by (simp add: searchsorted_left_def searchsorted_right_def length_takeWhile_map in_window_def [abs_def])
  then show ?thesis by (simp add: ClipData_def Let_def)
qed

lemma ascending_filter: "ascending t \<Longrightarrow> ascending (filter P t)"
  by (simp add: ascending_def sorted_map_filter)

lemma sorted_hd_least:
  "sorted (map f xs) \<Longrightarrow> x \<in> set xs \<Longrightarrow> f (hd xs) \<le> (f x :: 'k::linorder)"
  by (cases xs) auto

lemma sorted_last_greatest:
  "sorted (map f xs) \<Longrightarrow> x \<in> set xs \<Longrightarrow> (f x :: 'k::linorder) \<le> f (last xs)"
proof (induction xs)
  case Nil
  then show ?case by simp
next
  case (Cons y ys)
  show ?case
  proof (cases "ys = []")
    case True
    with Cons.prems show ?thesis by simp
  next
    case False
    then have l: "last ys \<in> set ys" by simp
    from Cons.prems have s: "sorted (map f ys)" and le: "\<forall>z\<in>set ys. f y \<le> f z" by simp_all
    show ?thesis
    proof (cases "x = y")
      case True
      with le l False show ?thesis by simp
    next
      case neq: False
      with Cons.prems have "x \<in> set ys" by simp
      with Cons.IH s False show ?thesis by simp
    qed
  qed
qed

lemma flow_sample_ascending: "ascending flow_sample"
  by (simp add: ascending_def flow_sample_def flow_row_def)

lemma flow_sample_clip:
  "filter (in_window (2014, 10, 1) (2019, 9, 30)) flow_sample =
     [flow_row (2014, 10, 1) None, flow_row (2014, 10, 2) None, flow_row (2019, 9, 29) (Some 8)]"
  by (simp add: flow_sample_def flow_row_def in_window_def)

text \<open>
  Claim C4. On a table whose dates are in ascending order, the table returned by
  \<open>ClipData\<close> consists of exactly the rows of the input whose date lies in the window from
  the start to the end, both included, in their order. Rows with an absent discharge are
  kept like the others. Hence the first clipped date is the start when the input has a row
  of that date, every clipped date lies between the start and the end, and with
  one row per date the length is the number of dates of the input inside the window.
\<close>

theorem ClipData_window:
  assumes "ascending t"
  shows "fst (ClipData t s e) = filter (in_window s e) t
    \<and> absent_rows (fst (ClipData t s e)) = filter (in_window s e) (absent_rows t)
    \<and> list_all (in_window s e) (fst (ClipData t s e))
    \<and> (s \<le> e \<and> s \<in> Date ` set t \<longrightarrow>
          fst (ClipData t s e) \<noteq> [] \<and> Date (hd (fst (ClipData t s e))) = s)
    \<and> (fst (ClipData t s e) \<noteq> [] \<longrightarrow>
          s \<le> Date (hd (fst (ClipData t s e))) \<and> Date (last (fst (ClipData t s e))) \<le> e)
    \<and> (distinct (map Date t) \<longrightarrow>
          length (fst (ClipData t s e)) = card {d \<in> Date ` set t. s \<le> d \<and> d \<le> e})"
proof -
  let ?c = "filter (in_window s e) t"
  have eq: "fst (ClipData t s e) = ?c"
    using assms by (simp add: ClipData_filter)
  have ab: "absent_rows ?c = filter (in_window s e) (absent_rows t)"
    by (simp add: absent_rows_def conj_commute)
  have win: "list_all (in_window s e) ?c"
    by (simp add: list_all_iff)
  have sc: "sorted (map Date ?c)"
    using assms by (simp add: ascending_def sorted_map_filter)
  have first: "?c \<noteq> [] \<and> Date (hd ?c) = s" if "s \<le> e" and "s \<in> Date ` set t"
  proof -
    from that obtain r where r: "r \<in> set t" "Date r = s" by auto
    with that have rc: "r \<in> set ?c" by (simp add: in_window_def)
    from length_pos_if_in_set [OF rc] have ne: "?c \<noteq> []"
      by simp
    from sorted_hd_least [OF sc rc] r have "Date (hd ?c) \<le> s" by simp
    moreover from ne have "hd ?c \<in> set ?c" by (rule hd_in_set)
    then have "in_window s e (hd ?c)" by (simp only: set_filter mem_Collect_eq)
    then have "s \<le> Date (hd ?c)" by (simp add: in_window_def)
    ultimately show ?thesis using ne by simp
  qed
  have ends: "s \<le> Date (hd ?c) \<and> Date (last ?c) \<le> e" if "?c \<noteq> []"
  proof -
    from that have "hd ?c \<in> set ?c" by (rule hd_in_set)
    then have a: "in_window s e (hd ?c)" by (simp only: set_filter mem_Collect_eq)
    from that have "last ?c \<in> set ?c" by (rule last_in_set)
    then have b: "in_window s e (last ?c)" by (simp only: set_filter mem_Collect_eq)
    from a b show ?thesis by (simp add: in_window_def)
  qed
  have len: "length ?c = card {d \<in> Date ` set t. s \<le> d \<and> d \<le> e}" if "distinct (map Date t)"
  proof -
    from that have "distinct (map Date ?c)" by (rule distinct_map_filter)
    then have "length ?c = card (set (map Date ?c))"
      using distinct_card [of "map Date ?c"] by simp
    also have "set (map Date ?c) = {d \<in> Date ` set t. s \<le> d \<and> d \<le> e}"
      by (auto simp: in_window_def)
    finally show ?thesis .
  qed
  from ab win first ends len show ?thesis
    unfolding eq by blast
qed

theorem ClipData_window_witness:
  "ascending flow_sample
   \<and> fst (ClipData flow_sample (2014, 10, 1) (2019, 9, 30)) =
       [flow_row (2014, 10, 1) None, flow_row (2014, 10, 2) None, flow_row (2019, 9, 29) (Some 8)]
   \<and> Date (hd (fst (ClipData flow_sample (2014, 10, 1) (2019, 9, 30)))) = (2014, 10, 1)
   \<and> Date (last (fst (ClipData flow_sample (2014, 10, 1) (2019, 9, 30)))) \<le> (2019, 9, 30)
   \<and> length (absent_rows (fst (ClipData flow_sample (2014, 10, 1) (2019, 9, 30)))) = 2"
proof -
  have h: "ascending flow_sample" by (rule flow_sample_ascending)
  have m: "((2014, 10, 1) :: date) \<le> (2019, 9, 30) \<and> (2014, 10, 1) \<in> Date ` set flow_sample"
    by (simp add: flow_sample_def flow_row_def)
  from ClipData_window [OF h, of "(2014, 10, 1)" "(2019, 9, 30)"] m
  have a: "fst (ClipData flow_sample (2014, 10, 1) (2019, 9, 30)) =
             filter (in_window (2014, 10, 1) (2019, 9, 30)) flow_sample"
    and b: "Date (hd (fst (ClipData flow_sample (2014, 10, 1) (2019, 9, 30)))) = (2014, 10, 1)"
    and c: "Date (last (fst (ClipData flow_sample (2014, 10, 1) (2019, 9, 30)))) \<le> (2019, 9, 30)"
    by blast+
  have d: "length (absent_rows (fst (ClipData flow_sample (2014, 10, 1) (2019, 9, 30)))) = 2"
    unfolding a flow_sample_clip by (simp add: absent_rows_def flow_row_def)
  from a have a': "fst (ClipData flow_sample (2014, 10, 1) (2019, 9, 30)) =
       [flow_row (2014, 10, 1) None, flow_row (2014, 10, 2) None, flow_row (2019, 9, 29) (Some 8)]"
    by (simp only: flow_sample_clip)
  from h a' b c d show ?thesis by blast
qed

text \<open>
  Claim C5. On a table whose dates are in ascending order, \<open>ClipData\<close> returns the empty
  table and the count 0 when the start is after the end, when the table has no row, and
  when the window lies wholly before the first date or wholly after the last date of the
  table. \<open>ClipData\<close> has no error result: it returns in each of these cases.
\<close>

theorem ClipData_empty_window:
  assumes "ascending t"
    and "e < s \<or> t = [] \<or> e < Date (hd t) \<or> Date (last t) < s"
  shows "ClipData t s e = ([], 0)"
proof -
  have out: "\<not> in_window s e r" if "r \<in> set t" for r
  proof -
    from assms(1) have st: "sorted (map Date t)" by (simp add: ascending_def)
    from that have ne: "t \<noteq> []" by auto
    have lo: "Date (hd t) \<le> Date r" using st that by (rule sorted_hd_least)
    have hi: "Date r \<le> Date (last t)" using st that by (rule sorted_last_greatest)
    from assms(2) ne consider "e < s" | "e < Date (hd t)" | "Date (last t) < s" by blast
    then show ?thesis
    proof cases
      case 1
      then show ?thesis by (auto simp: in_window_def)
    next
      case 2
      with lo show ?thesis by (auto simp: in_window_def)
    next
      case 3
      with hi show ?thesis by (auto simp: in_window_def)
    qed
  qed
  have "filter (in_window s e) t = []"
    unfolding filter_empty_conv using out by blast
  with assms(1) show ?thesis
    by (simp add: ClipData_filter count_na_def)
qed

theorem ClipData_empty_window_witness:
  "ascending flow_sample
   \<and> ((2014, 10, 1) :: date) < (2019, 9, 30)
   \<and> ClipData flow_sample (2019, 9, 30) (2014, 10, 1) = ([], 0)
   \<and> Date (last flow_sample) < (2020, 1, 1)
   \<and> ClipData flow_sample (2020, 1, 1) (2020, 12, 31) = ([], 0)
   \<and> (1999, 12, 31) < Date (hd flow_sample)
   \<and> ClipData flow_sample (1999, 1, 1) (1999, 12, 31) = ([], 0)
   \<and> ClipData [] (2014, 10, 1) (2019, 9, 30) = ([], 0)"
proof -
  have h: "ascending flow_sample" by (rule flow_sample_ascending)
  have h0: "ascending ([] :: real option row list)" by (simp add: ascending_def)
  have a: "((2014, 10, 1) :: date) < (2019, 9, 30)" by simp
  have b: "Date (last flow_sample) < (2020, 1, 1)"
    by (simp add: flow_sample_def flow_row_def)
  have c: "(1999, 12, 31) < Date (hd flow_sample)"
    by (simp add: flow_sample_def flow_row_def)
  have "ClipData flow_sample (2019, 9, 30) (2014, 10, 1) = ([], 0)"
    using a by (intro ClipData_empty_window [OF h]) blast
  moreover have "ClipData flow_sample (2020, 1, 1) (2020, 12, 31) = ([], 0)"
    using b by (intro ClipData_empty_window [OF h]) blast
  moreover have "ClipData flow_sample (1999, 1, 1) (1999, 12, 31) = ([], 0)"
    using c by (intro ClipData_empty_window [OF h]) blast
  moreover have "ClipData [] (2014, 10, 1) (2019, 9, 30) = ([], 0)"
    by (intro ClipData_empty_window [OF h0]) blast
  ultimately show ?thesis using h a b c by blast
qed

text \<open>
  Claim C6. On a table whose dates are in ascending order, clipping the table returned by
  \<open>ClipData\<close> once more to the same start and end returns the same table and the same
  count.
\<close>

theorem ClipData_idempotent:
  assumes "ascending t"
  shows "ClipData (fst (ClipData t s e)) s e = ClipData t s e"
proof -
  let ?c = "filter (in_window s e) t"
  have c: "ClipData t s e = (?c, count_na ?c)"
    using assms by (rule ClipData_filter)
  have "ascending ?c" using assms by (rule ascending_filter)
  then have "ClipData ?c s e = (filter (in_window s e) ?c, count_na (filter (in_window s e) ?c))"
    by (rule ClipData_filter)
  then show ?thesis by (simp add: c)
qed

theorem ClipData_idempotent_witness:
  "ascending flow_sample
   \<and> ClipData (fst (ClipData flow_sample (2014, 10, 1) (2019, 9, 30))) (2014, 10, 1) (2019, 9, 30)
       = ClipData flow_sample (2014, 10, 1) (2019, 9, 30)
   \<and> ClipData flow_sample (2014, 10, 1) (2019, 9, 30) =
       ([flow_row (2014, 10, 1) None, flow_row (2014, 10, 2) None, flow_row (2019, 9, 29) (Some 8)], 2)"
proof -
  have h: "ascending flow_sample" by (rule flow_sample_ascending)
  have cnt: "count_na [flow_row (2014, 10, 1) None, flow_row (2014, 10, 2) None,
                 flow_row (2019, 9, 29) (Some 8)] = 2"
    by (simp add: count_na_def isna_def flow_row_def)
  have v: "ClipData flow_sample (2014, 10, 1) (2019, 9, 30) =
       ([flow_row (2014, 10, 1) None, flow_row (2014, 10, 2) None, flow_row (2019, 9, 29) (Some 8)], 2)"
    using ClipData_filter [OF h, of "(2014, 10, 1)" "(2019, 9, 30)"]
    by (simp only: flow_sample_clip cnt)
  from ClipData_idempotent [OF h, of "(2014, 10, 1)" "(2019, 9, 30)"] h v
  show ?thesis by blast
qed

section \<open>Properties of the exceedance probabilities\<close>

lemma length_filter_less_nth:
  assumes "sorted s" and "distinct s" and "k < length s"
  shows "length (filter (\<lambda>y. y < s ! k) s) = k"
proof -
  from assms(1,2) have st: "sorted_wrt (<) s" by (simp add: strict_sorted_iff)
  have "{i. i < length s \<and> s ! i < s ! k} = {..<k}"
  proof (rule set_eqI)
    fix i
    show "i \<in> {i. i < length s \<and> s ! i < s ! k} \<longleftrightarrow> i \<in> {..<k}"
    proof
      assume "i \<in> {i. i < length s \<and> s ! i < s ! k}"
      then have i: "i < length s" and lt: "s ! i < s ! k" by simp_all
      have "\<not> k \<le> i"
      proof
        assume "k \<le> i"
        with assms(1) i have "s ! k \<le> s ! i" by (simp add: sorted_nth_mono)
        with lt show False by simp
      qed
      then show "i \<in> {..<k}" by simp
    next
      assume "i \<in> {..<k}"
      then have ik: "i < k" by simp
      with st assms(3) have "s ! i < s ! k" by (simp add: sorted_wrt_nth_less)
      with ik assms(3) show "i \<in> {i. i < length s \<and> s ! i < s ! k}" by simp
    qed
  qed
  then show ?thesis by (simp add: length_filter_conv_card)
qed

lemma length_filter_eq_nth:
  assumes "distinct s" and "k < length s"
  shows "length (filter (\<lambda>y. y = s ! k) s) = 1"
proof -
  have "{i. i < length s \<and> s ! i = s ! k} = {k}"
    using assms by (auto simp: nth_eq_iff_index_eq)
  then show ?thesis by (simp add: length_filter_conv_card)
qed

lemma zip_map_upt:
  "zip (map g [0..<length p]) p = map (\<lambda>i. (g i, p ! i)) [0..<length p]"
  by (rule nth_equalityI) simp_all

lemma rev_rankdata_average:
  "rev (rankdata_average (rev s)) = rankdata_average s"
proof -
  have "length (filter P (rev s)) = length (filter P s)" for P :: "real \<Rightarrow> bool"
    by (simp add: rev_filter [symmetric])
  then show ?thesis by (simp add: rankdata_average_def rev_map)
qed

lemma rankdata_average_sorted_distinct:
  assumes "sorted s" and "distinct s" and "k < length s"
  shows "rankdata_average s ! k = real k + 1"
  using assms by (simp add: rankdata_average_def length_filter_less_nth length_filter_eq_nth)

text \<open>
  For peak flows that are all different, the k-th largest peak (k counted from 1) stands
  beside the exceedance value k / (n + 1).
\<close>

lemma exceedance_distinct:
  assumes "distinct xs"
  shows "exceedance xs =
           map (\<lambda>i. ((real i + 1) / (real (length xs) + 1), rev (sort xs) ! i)) [0..<length xs]"
proof -
  let ?p = "rev (sort xs)"
  have len: "length ?p = length xs" by simp
  have rr: "rev (rankdata_average ?p) = rankdata_average (sort xs)"
    by (rule rev_rankdata_average)
  have rk: "rankdata_average (sort xs) ! i = real i + 1" if "i < length xs" for i
    using that assms by (intro rankdata_average_sorted_distinct) simp_all
  have "exceedance xs =
          zip (map (\<lambda>i. rankdata_average (sort xs) ! i / (real (length ?p) + 1)) [0..<length ?p]) ?p"
    by (simp only: exceedance_def sort_values_desc_def Let_def rr)
  also have "\<dots> = map (\<lambda>i. (rankdata_average (sort xs) ! i / (real (length ?p) + 1), ?p ! i)) [0..<length ?p]"
    by (rule zip_map_upt)
  also have "\<dots> = map (\<lambda>i. ((real i + 1) / (real (length xs) + 1), ?p ! i)) [0..<length xs]"
    by (simp add: rk)
  finally show ?thesis .
qed

text \<open>
  Claim C10. The pairing of the k-th largest peak with k / (n + 1) holds for peaks that
  are all different (\<open>exceedance_distinct\<close>). With equal peaks the program reverses the
  array of average ranks, which puts the shared rank of a tie at the mirrored positions:
  for the peaks 30, 30, 20, 10 the two equal peaks of 30 stand beside 1/5 and 2/5, and the
  different peaks 20 and 10 both stand beside 7/10.
\<close>

theorem exceedance_of_tied_peaks:
  "exceedance [30, 30, 20, 10] = [(1 / 5, 30), (2 / 5, 30), (7 / 10, 20), (7 / 10, 10)]"
  by (simp add: exceedance_def sort_values_desc_def rankdata_average_def upt_rec)

section \<open>Properties of ReadMetrics\<close>

lemma map_of_filter_other:
  "n \<noteq> k \<Longrightarrow> map_of (filter (\<lambda>(name, col). name \<noteq> k) df) n = map_of df n"
  by (induction df) auto

text \<open>
  Every column other than \<^verbatim>\<open>Date\<close> is in the returned frame under its name, cell by
  cell as it was read, and the index is the \<^verbatim>\<open>Date\<close> column.
\<close>

lemma ReadMetrics_keeps_columns:
  assumes "ReadMetrics df = Inr (idx, cols)"
  shows "map_of df ''Date'' = Some idx \<and> (\<forall>n. n \<noteq> ''Date'' \<longrightarrow> map_of cols n = map_of df n)"
proof -
  from assms obtain d where d: "map_of df ''Date'' = Some d"
    by (cases "map_of df ''Date''") (simp_all add: ReadMetrics_def)
  with assms have "idx = d" and "cols = filter (\<lambda>(name, col). name \<noteq> ''Date'') df"
    by (simp_all add: ReadMetrics_def)
  with d show ?thesis by (simp add: map_of_filter_other)
qed

section \<open>Properties of GetMonthlyStatistics\<close>

lemma bucket_month_range: "1 \<le> bucket_month b \<and> bucket_month b \<le> 12"
proof -
  have "0 \<le> b mod 12" and "b mod 12 < 12" by simp_all
  then show ?thesis unfolding bucket_month_def by linarith
qed

lemma mod12_offset: "0 \<le> j \<Longrightarrow> j < 12 \<Longrightarrow> (y * 12 + j) mod 12 = (j::int)"
  by simp

lemma month_split_unique:
  "1 \<le> a \<Longrightarrow> a \<le> 12 \<Longrightarrow> 1 \<le> b \<Longrightarrow> b \<le> 12 \<Longrightarrow> y * 12 + a = z * 12 + b \<Longrightarrow> y = z \<and> a = (b::int)"
  by arith

lemma bucket_month_index:
  "valid_date d \<Longrightarrow> bucket_month (month_index d) = month_of d"
proof -
  assume "valid_date d"
  then have m: "1 \<le> month_of d" "month_of d \<le> 12" by (simp_all add: valid_date_def)
  have "month_index d = year_of d * 12 + (int (month_of d) - 1)"
    by (simp add: month_index_def)
  moreover have "(year_of d * 12 + (int (month_of d) - 1)) mod 12 = int (month_of d) - 1"
    using m by (intro mod12_offset) simp_all
  ultimately show ?thesis using m by (simp add: bucket_month_def)
qed

lemma month_index_eq_iff:
  assumes "valid_date d" and "1 \<le> m" and "m \<le> 12"
  shows "month_index d = y * 12 + int m - 1 \<longleftrightarrow> year_of d = y \<and> month_of d = m"
proof
  from assms(1) have v: "1 \<le> int (month_of d)" "int (month_of d) \<le> 12"
    by (simp_all add: valid_date_def)
  from assms(2,3) have w: "1 \<le> int m" "int m \<le> 12" by simp_all
  assume "month_index d = y * 12 + int m - 1"
  then have "year_of d * 12 + int (month_of d) = y * 12 + int m"
    by (simp add: month_index_def)
  from month_split_unique [OF v w this] show "year_of d = y \<and> month_of d = m" by simp
next
  assume "year_of d = y \<and> month_of d = m"
  then show "month_index d = y * 12 + int m - 1" by (simp add: month_index_def)
qed

lemma resample_MS_Nil: "resample_MS [] = []"
  by (simp add: resample_MS_def)

lemma resample_MS_range:
  "t \<noteq> [] \<Longrightarrow> resample_MS t = map (\<lambda>b. (b, bucket_values t b)) [first_month t .. last_month t]"
proof (cases t)
  case Nil
  assume "t \<noteq> []"
  with Nil show ?thesis by simp
next
  case (Cons r rs)
  have "fold min (map (\<lambda>r. month_index (Date r)) rs) (month_index (Date r)) = first_month t"
    unfolding first_month_def Cons by (simp add: Min.set_eq_fold [symmetric])
  moreover have "fold max (map (\<lambda>r. month_index (Date r)) rs) (month_index (Date r)) = last_month t"
    unfolding last_month_def Cons by (simp add: Max.set_eq_fold [symmetric])
  ultimately show ?thesis
    by (simp add: resample_MS_def Cons)
qed

lemma month_index_in_span:
  "r \<in> set t \<Longrightarrow> first_month t \<le> month_index (Date r) \<and> month_index (Date r) \<le> last_month t"
  by (simp add: first_month_def last_month_def)

lemma GetMonthlyStatistics_Nil: "GetMonthlyStatistics [] = []"
  by (simp add: GetMonthlyStatistics_def resample_MS_Nil bucket_means_def)

lemma GetMonthlyStatistics_rows:
  assumes "t \<noteq> []"
  shows "GetMonthlyStatistics t =
     map (\<lambda>m. (m, nanmean (map (\<lambda>b. nanmean (bucket_values t b))
                     (filter (\<lambda>b. bucket_month b = m) [first_month t .. last_month t]))))
       (sort (remdups (map bucket_month [first_month t .. last_month t])))"
proof -
  let ?L = "[first_month t .. last_month t]"
  let ?M = "bucket_means (resample_MS t)"
  have M: "?M = map (\<lambda>b. (b, nanmean (bucket_values t b))) ?L"
    by (simp add: bucket_means_def resample_MS_range [OF assms] comp_def)
  have ks: "map (\<lambda>(b, v). bucket_month b) ?M = map bucket_month ?L"
    by (simp add: M comp_def)
  have vs: "map snd (filter (\<lambda>(b, v). bucket_month b = m) ?M) =
              map (\<lambda>b. nanmean (bucket_values t b)) (filter (\<lambda>b. bucket_month b = m) ?L)" for m
    by (simp add: M filter_map comp_def)
  show ?thesis
    by (simp only: GetMonthlyStatistics_def Let_def ks vs)
qed

lemma GetMonthlyStatistics_index:
  "map fst (GetMonthlyStatistics t) =
     (if t = [] then [] else sort (remdups (map bucket_month [first_month t .. last_month t])))"
proof (cases "t = []")
  case True
  then show ?thesis by (simp add: GetMonthlyStatistics_Nil)
next
  case False
  then show ?thesis by (simp add: GetMonthlyStatistics_rows comp_def)
qed

lemma GetMonthlyStatistics_lookup:
  assumes "t \<noteq> []" and "first_month t \<le> b" and "b \<le> last_month t"
  shows "map_of (GetMonthlyStatistics t) (bucket_month b) =
     Some (nanmean (map (\<lambda>b. nanmean (bucket_values t b))
             (filter (\<lambda>c. bucket_month c = bucket_month b) [first_month t .. last_month t])))"
proof -
  from assms(2,3) have "bucket_month b \<in> set (sort (remdups (map bucket_month [first_month t .. last_month t])))"
    by simp
  then show ?thesis
    by (simp add: GetMonthlyStatistics_rows [OF assms(1)] map_of_map_restrict)
qed

lemma present_map_filter:
  "(\<And>x. x \<in> set xs \<Longrightarrow> \<not> Q x \<Longrightarrow> F x = None) \<Longrightarrow>
     present (map F xs) = present (map F (filter Q xs))"
proof (induction xs)
  case Nil
  show ?case by simp
next
  case (Cons x xs)
  then have IH: "present (map F xs) = present (map F (filter Q xs))" by simp
  show ?case
  proof (cases "Q x")
    case True
    with IH show ?thesis by (cases "F x") simp_all
  next
    case False
    with Cons.prems have "F x = None" by simp
    with False IH show ?thesis by simp
  qed
qed

lemma present_empty_iff: "present xs = [] \<longleftrightarrow> (\<forall>x\<in>set xs. x = None)"
  by (induction xs rule: present.induct) simp_all

lemma nanmean_None_iff: "nanmean xs = None \<longleftrightarrow> (\<forall>x\<in>set xs. x = None)"
  by (simp add: nanmean_def Let_def present_empty_iff)

lemma nanmean_cong_present: "present xs = present ys \<Longrightarrow> nanmean xs = nanmean ys"
  by (simp add: nanmean_def)

lemma bucket_values_empty:
  "b \<notin> (\<lambda>r. month_index (Date r)) ` set t \<Longrightarrow> bucket_values t b = []"
  by (auto simp: bucket_values_def filter_empty_conv)

lemma valid_datesD: "valid_dates t \<Longrightarrow> r \<in> set t \<Longrightarrow> valid_date (Date r)"
  by (simp add: valid_dates_def list_all_iff)

lemma bucket_values_spec:
  assumes "valid_dates t" and "1 \<le> m" and "m \<le> 12"
  shows "nanmean (bucket_values t (y * 12 + int m - 1)) = spec_bucket_mean t y m"
proof -
  have "filter (\<lambda>r. month_index (Date r) = y * 12 + int m - 1) t =
        filter (\<lambda>r. year_of (Date r) = y \<and> month_of (Date r) = m) t"
    using assms by (intro filter_cong refl month_index_eq_iff valid_datesD)
  then show ?thesis by (simp add: bucket_values_def spec_bucket_mean_def)
qed

lemma span_months_of_year_list:
  assumes "valid_dates t" and "1 \<le> m" and "m \<le> 12"
  shows "filter (\<lambda>b. b \<in> (\<lambda>r. month_index (Date r)) ` set t)
           (filter (\<lambda>b. bucket_month b = m) [first_month t .. last_month t])
         = map (\<lambda>y. y * 12 + int m - 1) (spec_years t m)"
proof (rule sorted_distinct_set_unique)
  let ?K = "(\<lambda>r. month_index (Date r)) ` set t"
  let ?B = "filter (\<lambda>b. b \<in> ?K) (filter (\<lambda>b. bucket_month b = m) [first_month t .. last_month t])"
  let ?g = "\<lambda>y. y * 12 + int m - 1"
  show "sorted ?B" by (intro sorted_wrt_filter) simp
  show "distinct ?B" by simp
  have sy: "sorted (spec_years t m)" and dy: "distinct (spec_years t m)"
    by (simp_all add: spec_years_def)
  have "sorted_wrt (\<lambda>x y. ?g x \<le> ?g y) (spec_years t m)"
    using sy by (rule sorted_wrt_mono_rel [rotated]) simp
  then show "sorted (map ?g (spec_years t m))" by (simp add: sorted_map)
  have "inj_on ?g (set (spec_years t m))" by (rule inj_onI) simp
  with dy show "distinct (map ?g (spec_years t m))" by (simp add: distinct_map)
  show "set ?B = set (map ?g (spec_years t m))"
  proof (rule set_eqI)
    fix b
    show "b \<in> set ?B \<longleftrightarrow> b \<in> set (map ?g (spec_years t m))"
    proof
      assume "b \<in> set ?B"
      then obtain r where r: "r \<in> set t" "b = month_index (Date r)" and bm: "bucket_month b = m"
        by auto
      from assms(1) r(1) have v: "valid_date (Date r)" by (rule valid_datesD)
      with r bm have mo: "month_of (Date r) = m" by (simp add: bucket_month_index)
      then have "b = ?g (year_of (Date r))" using r(2) by (simp add: month_index_def)
      moreover from r(1) mo have "year_of (Date r) \<in> set (spec_years t m)"
        by (auto simp: spec_years_def)
      ultimately show "b \<in> set (map ?g (spec_years t m))" by auto
    next
      assume "b \<in> set (map ?g (spec_years t m))"
      then obtain r where r: "r \<in> set t" "month_of (Date r) = m" and b: "b = ?g (year_of (Date r))"
        by (auto simp: spec_years_def)
      from assms(1) r(1) have v: "valid_date (Date r)" by (rule valid_datesD)
      from b r(2) have bi: "b = month_index (Date r)" by (simp add: month_index_def)
      with v r(2) have "bucket_month b = m" by (simp add: bucket_month_index)
      moreover from bi r(1) have "b \<in> ?K" by simp
      moreover from bi r(1) have "first_month t \<le> b \<and> b \<le> last_month t"
        by (simp add: month_index_in_span)
      ultimately show "b \<in> set ?B" by simp
    qed
  qed
qed

lemma month_mean_refines:
  assumes "valid_dates t" and "1 \<le> m" and "m \<le> 12"
  shows "nanmean (map (\<lambda>b. nanmean (bucket_values t b))
            (filter (\<lambda>b. bucket_month b = m) [first_month t .. last_month t]))
         = spec_monthly_profile t m"
proof -
  let ?K = "(\<lambda>r. month_index (Date r)) ` set t"
  let ?F = "\<lambda>b. nanmean (bucket_values t b)"
  let ?Bm = "filter (\<lambda>b. bucket_month b = m) [first_month t .. last_month t]"
  have none: "?F b = None" if "b \<notin> ?K" for b
    using that by (simp add: bucket_values_empty nanmean_def)
  have "present (map ?F ?Bm) = present (map ?F (filter (\<lambda>b. b \<in> ?K) ?Bm))"
    by (rule present_map_filter) (rule none)
  also have "filter (\<lambda>b. b \<in> ?K) ?Bm = map (\<lambda>y. y * 12 + int m - 1) (spec_years t m)"
    using assms by (rule span_months_of_year_list)
  also have "map ?F (map (\<lambda>y. y * 12 + int m - 1) (spec_years t m))
               = map (\<lambda>y. spec_bucket_mean t y m) (spec_years t m)"
    using assms by (simp add: bucket_values_spec comp_def)
  finally show ?thesis
    unfolding spec_monthly_profile_def by (rule nanmean_cong_present)
qed

lemma GetMonthlyStatistics_index_set:
  "fst ` set (GetMonthlyStatistics t) =
     (if t = [] then {} else bucket_month ` {first_month t .. last_month t})"
proof -
  have "fst ` set (GetMonthlyStatistics t) = set (map fst (GetMonthlyStatistics t))" by simp
  also have "\<dots> = (if t = [] then {} else bucket_month ` {first_month t .. last_month t})"
    by (simp only: GetMonthlyStatistics_index) simp
  finally show ?thesis .
qed

lemma GetMonthlyStatistics_refines:
  assumes "valid_dates t" and "m \<in> set (map fst (GetMonthlyStatistics t))"
  shows "map_of (GetMonthlyStatistics t) m = Some (spec_monthly_profile t m)"
proof -
  from assms(2) have ne: "t \<noteq> []" by (auto simp: GetMonthlyStatistics_Nil)
  with assms(2) obtain b where b: "first_month t \<le> b" "b \<le> last_month t" "bucket_month b = m"
    by (auto simp: GetMonthlyStatistics_index_set)
  from b(3) have m: "1 \<le> m" "m \<le> 12" using bucket_month_range [of b] by simp_all
  from GetMonthlyStatistics_lookup [OF ne b(1,2)] b(3)
  have "map_of (GetMonthlyStatistics t) m =
     Some (nanmean (map (\<lambda>b. nanmean (bucket_values t b))
             (filter (\<lambda>c. bucket_month c = m) [first_month t .. last_month t])))"
    by simp
  then show ?thesis by (simp only: month_mean_refines [OF assms(1) m])
qed

lemma row_month_in_index:
  assumes "valid_dates t" and "r \<in> set t"
  shows "month_of (Date r) \<in> set (map fst (GetMonthlyStatistics t))"
proof -
  from assms(2) have ne: "t \<noteq> []" by auto
  from assms have "bucket_month (month_index (Date r)) = month_of (Date r)"
    by (intro bucket_month_index valid_datesD)
  moreover from assms(2) have "month_index (Date r) \<in> {first_month t .. last_month t}"
    by (simp add: month_index_in_span)
  ultimately have "month_of (Date r) \<in> bucket_month ` {first_month t .. last_month t}"
    by (metis imageI)
  with ne show ?thesis by (simp add: GetMonthlyStatistics_index_set)
qed

lemma bucket_means_lookup:
  assumes "valid_dates t" and "r \<in> set t"
  shows "map_of (bucket_means (resample_MS t)) (month_index (Date r)) =
           Some (spec_bucket_mean t (year_of (Date r)) (month_of (Date r)))"
proof -
  from assms(2) have ne: "t \<noteq> []" by auto
  from assms have v: "valid_date (Date r)" by (rule valid_datesD)
  then have m: "1 \<le> month_of (Date r)" "month_of (Date r) \<le> 12" by (simp_all add: valid_date_def)
  have M: "bucket_means (resample_MS t) =
             map (\<lambda>b. (b, nanmean (bucket_values t b))) [first_month t .. last_month t]"
    by (simp add: bucket_means_def resample_MS_range [OF ne] comp_def)
  from assms(2) have "month_index (Date r) \<in> set [first_month t .. last_month t]"
    by (simp add: month_index_in_span)
  then have l: "map_of (bucket_means (resample_MS t)) (month_index (Date r)) =
               Some (nanmean (bucket_values t (month_index (Date r))))"
    by (simp add: M map_of_map_restrict)
  have "nanmean (bucket_values t (month_index (Date r))) =
          spec_bucket_mean t (year_of (Date r)) (month_of (Date r))"
    using bucket_values_spec [OF assms(1) m, of "year_of (Date r)"] by (simp add: month_index_def)
  with l show ?thesis by simp
qed

lemma spec_profile_None_iff:
  "spec_monthly_profile t m = None \<longleftrightarrow>
     list_all (\<lambda>r. Discharge r = None) (filter (\<lambda>r. month_of (Date r) = m) t)"
proof
  assume n: "spec_monthly_profile t m = None"
  have "Discharge r = None" if r: "r \<in> set t" "month_of (Date r) = m" for r
  proof -
    from r have "year_of (Date r) \<in> set (spec_years t m)" by (auto simp: spec_years_def)
    with n have "spec_bucket_mean t (year_of (Date r)) m = None"
      by (simp add: spec_monthly_profile_def nanmean_None_iff)
    with r show ?thesis by (simp add: spec_bucket_mean_def nanmean_None_iff)
  qed
  then show "list_all (\<lambda>r. Discharge r = None) (filter (\<lambda>r. month_of (Date r) = m) t)"
    by (simp add: list_all_iff)
next
  assume "list_all (\<lambda>r. Discharge r = None) (filter (\<lambda>r. month_of (Date r) = m) t)"
  then have "\<forall>r\<in>set t. month_of (Date r) = m \<longrightarrow> Discharge r = None"
    by (simp add: list_all_iff)
  then have "spec_bucket_mean t y m = None" for y
    by (simp add: spec_bucket_mean_def nanmean_None_iff)
  then show "spec_monthly_profile t m = None"
    by (simp add: spec_monthly_profile_def nanmean_None_iff)
qed

lemma twelve_months_covered:
  assumes "lo + 11 \<le> hi" and "1 \<le> m" and "m \<le> 12"
  shows "\<exists>b. lo \<le> b \<and> b \<le> hi \<and> bucket_month b = m"
proof -
  let ?b = "lo + (int m - 1 - lo) mod 12"
  have "0 \<le> (int m - 1 - lo) mod 12" and "(int m - 1 - lo) mod 12 < 12" by simp_all
  with assms(1) have r: "lo \<le> ?b" "?b \<le> hi" by linarith+
  have "?b mod 12 = (lo + (int m - 1 - lo)) mod 12" by (rule mod_add_right_eq)
  also have "\<dots> = (int m - 1) mod 12" by simp
  also have "\<dots> = int m - 1" using assms(2,3) by simp
  finally have "bucket_month ?b = m" using assms(2) by (simp add: bucket_month_def)
  with r show ?thesis by blast
qed

lemma full_index:
  assumes "t \<noteq> []" and "first_month t + 11 \<le> last_month t"
  shows "map fst (GetMonthlyStatistics t) = [1..<13]"
proof -
  let ?ks = "sort (remdups (map bucket_month [first_month t .. last_month t]))"
  have "set ?ks = {1..<13}"
  proof (rule set_eqI)
    fix m
    show "m \<in> set ?ks \<longleftrightarrow> m \<in> {1..<13}"
    proof
      assume "m \<in> set ?ks"
      then obtain b where "m = bucket_month b" by auto
      with bucket_month_range [of b] show "m \<in> {1..<13}" by simp
    next
      assume "m \<in> {1..<13}"
      then have "1 \<le> m" "m \<le> 12" by simp_all
      from twelve_months_covered [OF assms(2) this] show "m \<in> set ?ks" by auto
    qed
  qed
  then have "?ks = [1..<13]"
    by (intro sorted_distinct_set_unique) simp_all
  with assms(1) show ?thesis by (simp only: GetMonthlyStatistics_index if_False)
qed

lemma january_sample_valid: "valid_dates january_sample"
  by (simp add: valid_dates_def january_sample_def flow_row_def valid_date_def month_of_def day_of_def)

lemma gap_sample_valid: "valid_dates gap_sample"
  by (simp add: valid_dates_def gap_sample_def flow_row_def valid_date_def month_of_def day_of_def)

lemma gap_sample_span: "first_month gap_sample = 24240 \<and> last_month gap_sample = 24242"
  by (simp add: first_month_def last_month_def gap_sample_def flow_row_def month_index_def
      year_of_def month_of_def)

lemma january_sample_span: "first_month january_sample = 24216 \<and> last_month january_sample = 24228"
  by (simp add: first_month_def last_month_def january_sample_def flow_row_def month_index_def
      year_of_def month_of_def)

text \<open>
  Claim C2. The index of the table returned by \<open>GetMonthlyStatistics\<close> has no duplicates,
  is in ascending order and lies within 1, ..., 12. On a table of valid dates, the mean
  the resampler holds for the bucket of a row is the mean of the present discharges of
  the rows of that calendar month of that year; every row's month number is in the index;
  and the discharge of each month number of the index is the mean, over the years that
  have rows in that month, of those bucket means, absent ones ignored. So when January
  has rows in two years with the means 10 and 30, the January discharge is 20.
\<close>

theorem GetMonthlyStatistics_profile:
  "distinct (map fst (GetMonthlyStatistics t))
   \<and> sorted (map fst (GetMonthlyStatistics t))
   \<and> set (map fst (GetMonthlyStatistics t)) \<subseteq> {1..12}
   \<and> (valid_dates t \<longrightarrow>
        (\<forall>r\<in>set t.
            map_of (bucket_means (resample_MS t)) (month_index (Date r)) =
              Some (spec_bucket_mean t (year_of (Date r)) (month_of (Date r)))
          \<and> month_of (Date r) \<in> set (map fst (GetMonthlyStatistics t)))
      \<and> (\<forall>m\<in>set (map fst (GetMonthlyStatistics t)).
            map_of (GetMonthlyStatistics t) m = Some (spec_monthly_profile t m)))
   \<and> (valid_dates t \<and> spec_years t 1 = [y1, y2]
        \<and> spec_bucket_mean t y1 1 = Some 10 \<and> spec_bucket_mean t y2 1 = Some 30 \<longrightarrow>
        map_of (GetMonthlyStatistics t) 1 = Some (Some 20))"
proof -
  have d: "distinct (map fst (GetMonthlyStatistics t))"
    and s: "sorted (map fst (GetMonthlyStatistics t))"
    by (simp_all add: GetMonthlyStatistics_index)
  have r: "set (map fst (GetMonthlyStatistics t)) \<subseteq> {1..12}"
  proof
    fix m
    assume "m \<in> set (map fst (GetMonthlyStatistics t))"
    then obtain b where "m = bucket_month b"
      by (auto simp: GetMonthlyStatistics_index_set split: if_splits)
    with bucket_month_range [of b] show "m \<in> {1..12}" by simp
  qed
  have jan: "map_of (GetMonthlyStatistics t) 1 = Some (Some 20)"
    if v: "valid_dates t" and ys: "spec_years t 1 = [y1, y2]"
      and m1: "spec_bucket_mean t y1 1 = Some 10" and m2: "spec_bucket_mean t y2 1 = Some 30"
  proof -
    from ys have "y1 \<in> set (spec_years t 1)" by simp
    then obtain r where "r \<in> set t" "month_of (Date r) = 1" by (auto simp: spec_years_def)
    with v have "1 \<in> set (map fst (GetMonthlyStatistics t))"
      using row_month_in_index [of t r] by simp
    with v have "map_of (GetMonthlyStatistics t) 1 = Some (spec_monthly_profile t 1)"
      by (rule GetMonthlyStatistics_refines)
    also have "spec_monthly_profile t 1 = nanmean [Some 10, Some 30]"
      by (simp only: spec_monthly_profile_def ys list.map m1 m2)
    also have "\<dots> = Some 20"
      by (simp add: nanmean_def)
    finally show ?thesis .
  qed
  from d s r jan show ?thesis
    using bucket_means_lookup [of t] row_month_in_index [of t] GetMonthlyStatistics_refines [of t]
    by blast
qed

theorem GetMonthlyStatistics_profile_witness:
  "valid_dates january_sample
   \<and> spec_years january_sample 1 = [2018, 2019]
   \<and> spec_bucket_mean january_sample 2018 1 = Some 10
   \<and> spec_bucket_mean january_sample 2019 1 = Some 30
   \<and> map_of (GetMonthlyStatistics january_sample) 1 = Some (Some 20)
   \<and> distinct (map fst (GetMonthlyStatistics january_sample))"
proof -
  have v: "valid_dates january_sample" by (rule january_sample_valid)
  have ys: "spec_years january_sample 1 = [2018, 2019]"
    by (simp add: spec_years_def january_sample_def flow_row_def month_of_def year_of_def)
  have m1: "spec_bucket_mean january_sample 2018 1 = Some 10"
    by (simp add: spec_bucket_mean_def january_sample_def flow_row_def month_of_def year_of_def
        nanmean_def)
  have m2: "spec_bucket_mean january_sample 2019 1 = Some 30"
    by (simp add: spec_bucket_mean_def january_sample_def flow_row_def month_of_def year_of_def
        nanmean_def)
  from GetMonthlyStatistics_profile [of january_sample 2018 2019] v ys m1 m2
  show ?thesis by blast
qed

text \<open>
  Claim C7, as the program has it. The resampler makes a bucket for every calendar month
  from the first to the last month of the record, so a month number has a row exactly when
  some month of that span has that number; a table without rows gives no row at all. A
  month number of the index whose rows all have an absent discharge, or which has no row
  at all, has a row with an absent discharge. A record that spans twelve months or more
  has all of 1, ..., 12 in its index; only month numbers outside a shorter span are
  left out.
\<close>

theorem month_row_present_iff:
  "GetMonthlyStatistics [] = []
   \<and> (t \<noteq> [] \<longrightarrow>
        (m \<in> set (map fst (GetMonthlyStatistics t)) \<longleftrightarrow>
           (\<exists>b. first_month t \<le> b \<and> b \<le> last_month t \<and> bucket_month b = m)))
   \<and> (valid_dates t \<and> m \<in> set (map fst (GetMonthlyStatistics t)) \<longrightarrow>
        (map_of (GetMonthlyStatistics t) m = Some None \<longleftrightarrow>
           list_all (\<lambda>r. Discharge r = None) (filter (\<lambda>r. month_of (Date r) = m) t)))
   \<and> (t \<noteq> [] \<and> first_month t + 11 \<le> last_month t \<longrightarrow>
        map fst (GetMonthlyStatistics t) = [1..<13])"
proof -
  have a: "m \<in> set (map fst (GetMonthlyStatistics t)) \<longleftrightarrow>
           (\<exists>b. first_month t \<le> b \<and> b \<le> last_month t \<and> bucket_month b = m)" if "t \<noteq> []"
    using that by (auto simp: GetMonthlyStatistics_index_set)
  have b: "map_of (GetMonthlyStatistics t) m = Some None \<longleftrightarrow>
           list_all (\<lambda>r. Discharge r = None) (filter (\<lambda>r. month_of (Date r) = m) t)"
    if "valid_dates t" and "m \<in> set (map fst (GetMonthlyStatistics t))"
    using GetMonthlyStatistics_refines [OF that] by (simp add: spec_profile_None_iff)
  from a b show ?thesis
    using GetMonthlyStatistics_Nil full_index [of t] by blast
qed

theorem month_row_present_iff_witness:
  "gap_sample \<noteq> [] \<and> valid_dates gap_sample
   \<and> filter (\<lambda>r. month_of (Date r) = 2) gap_sample = []
   \<and> 2 \<in> set (map fst (GetMonthlyStatistics gap_sample))
   \<and> map_of (GetMonthlyStatistics gap_sample) 2 = Some None
   \<and> january_sample \<noteq> [] \<and> first_month january_sample + 11 \<le> last_month january_sample
   \<and> map fst (GetMonthlyStatistics january_sample) = [1..<13]"
proof -
  have ne: "gap_sample \<noteq> []" by (simp add: gap_sample_def)
  have v: "valid_dates gap_sample" by (rule gap_sample_valid)
  have f: "filter (\<lambda>r. month_of (Date r) = 2) gap_sample = []"
    by (simp add: gap_sample_def flow_row_def month_of_def)
  have "first_month gap_sample \<le> 24241 \<and> 24241 \<le> last_month gap_sample \<and> bucket_month 24241 = 2"
    by (simp add: gap_sample_span bucket_month_def)
  then have ex: "\<exists>b. first_month gap_sample \<le> b \<and> b \<le> last_month gap_sample \<and> bucket_month b = 2"
    by blast
  from month_row_present_iff [of gap_sample 2] ne ex
  have i: "2 \<in> set (map fst (GetMonthlyStatistics gap_sample))" by blast
  have l: "list_all (\<lambda>r. Discharge r = None) (filter (\<lambda>r. month_of (Date r) = 2) gap_sample)"
    unfolding f by simp
  from month_row_present_iff [of gap_sample 2] v i l
  have n: "map_of (GetMonthlyStatistics gap_sample) 2 = Some None" by blast
  have ne': "january_sample \<noteq> []" by (simp add: january_sample_def)
  have sp: "first_month january_sample + 11 \<le> last_month january_sample"
    by (simp add: january_sample_span)
  from month_row_present_iff [of january_sample 1] ne' sp
  have full: "map fst (GetMonthlyStatistics january_sample) = [1..<13]" by blast
  from ne v f i n ne' sp full show ?thesis by blast
qed

theorem month_without_days_has_row:
  "filter (\<lambda>r. month_of (Date r) = 2) gap_sample = []
   \<and> GetMonthlyStatistics gap_sample = [(1, Some 4), (2, None), (3, Some 6)]"
  by (simp add: GetMonthlyStatistics_def gap_sample_def flow_row_def resample_MS_def
      bucket_means_def bucket_values_def month_index_def year_of_def month_of_def
      bucket_month_def nanmean_def)

end
